theory Spec2Isabelle
  imports Complex_Main "HOL-Library.Multiset"
begin

section \<open>Python strings\<close>

text \<open>
  The source is Python 2 (\<^verbatim>\<open>basestring\<close>); its \<^verbatim>\<open>str\<close> is a byte string, modelled
  as \<^typ>\<open>string\<close>. \<^verbatim>\<open>str.strip()\<close> removes the six ASCII whitespace bytes at both
  ends, \<^verbatim>\<open>str.split(sep)\<close> cuts at every occurrence of a one-character separator
  (the empty string gives one empty piece), \<^verbatim>\<open>sep.join\<close> puts the separator between
  the pieces, and the slice \<^verbatim>\<open>s[1:-1]\<close> drops the first and the last character
  (and is empty for strings shorter than two characters).
\<close>

definition isspace :: "char \<Rightarrow> bool" where
  "isspace c \<longleftrightarrow> c \<in> set [CHR '' '', CHR 0x09, CHR 0x0A, CHR 0x0B, CHR 0x0C, CHR 0x0D]"

definition lstrip :: "string \<Rightarrow> string" where
  "lstrip s = dropWhile isspace s"

definition rstrip :: "string \<Rightarrow> string" where
  "rstrip s = rev (dropWhile isspace (rev s))"

definition strip :: "string \<Rightarrow> string" where
  "strip s = rstrip (lstrip s)"

fun split :: "char \<Rightarrow> string \<Rightarrow> string list" where
  "split sep [] = [[]]"
| "split sep (c # cs) =
     (if c = sep then [] # split sep cs
      else (case split sep cs of
              [] \<Rightarrow> [[c]]
            | p # ps \<Rightarrow> (c # p) # ps))"

fun join :: "string \<Rightarrow> string list \<Rightarrow> string" where
  "join sep [] = []"
| "join sep [p] = p"
| "join sep (p # q # ps) = p @ sep @ join sep (q # ps)"

definition slice_1_m1 :: "string \<Rightarrow> string" where
  "slice_1_m1 s = butlast (tl s)"

section \<open>The builtins \<^verbatim>\<open>int\<close> and \<^verbatim>\<open>float\<close> on strings\<close>

text \<open>
  \<^verbatim>\<open>int(val)\<close> and \<^verbatim>\<open>float(val)\<close> are builtins of the language, not code of the
  repository. They are modelled after the Python 2.7 library reference: \<^verbatim>\<open>int\<close> accepts
  a decimal integer literal, optionally preceded by \<^verbatim>\<open>+\<close> or \<^verbatim>\<open>-\<close> (with no space in
  between) and surrounded by whitespace; \<^verbatim>\<open>float\<close> accepts, surrounded by whitespace and
  after an optional sign, a decimal number with optional fraction and exponent, or
  \<^verbatim>\<open>inf\<close>, \<^verbatim>\<open>infinity\<close>, \<^verbatim>\<open>nan\<close> in any letter case. Both raise \<^verbatim>\<open>ValueError\<close> on
  any other string, which is \<^const>\<open>None\<close> here.

  A float is kept as the exact decimal value its literal denotes (CPython rounds that
  value to the nearest IEEE double; the rounding is not modelled).
\<close>

definition isdigit :: "char \<Rightarrow> bool" where
  "isdigit c \<longleftrightarrow> c \<in> set ''0123456789''"

definition digit_val :: "char \<Rightarrow> nat" where
  "digit_val c = of_char c - 48"

definition digits_val :: "string \<Rightarrow> nat" where
  "digits_val ds = foldl (\<lambda>n c. 10 * n + digit_val c) 0 ds"

definition split_sign :: "string \<Rightarrow> bool \<times> string" where
  "split_sign t =
     (case t of
        [] \<Rightarrow> (False, [])
      | c # r \<Rightarrow> if c = CHR ''-'' then (True, r)
                 else if c = CHR ''+'' then (False, r)
                 else (False, t))"

definition py_int :: "string \<Rightarrow> int option" where
  "py_int s =
     (let (neg, ds) = split_sign (strip s) in
      if ds \<noteq> [] \<and> list_all isdigit ds
      then Some (if neg then - int (digits_val ds) else int (digits_val ds))
      else None)"

datatype pyfloat = Finite rat | Infinite bool | NaN

definition to_lower :: "char \<Rightarrow> char" where
  "to_lower c =
     (let n = (of_char c :: nat) in if 65 \<le> n \<and> n \<le> 90 then char_of (n + 32) else c)"

definition scale10 :: "nat \<Rightarrow> int \<Rightarrow> rat" where
  "scale10 m e = (if 0 \<le> e then of_nat m * 10 ^ nat e else of_nat m / 10 ^ nat (- e))"

definition py_exponent :: "string \<Rightarrow> int option" where
  "py_exponent r =
     (case r of
        [] \<Rightarrow> Some 0
      | c # r' \<Rightarrow>
          if c = CHR ''e'' \<or> c = CHR ''E'' then
            (let (neg, ds) = split_sign r' in
             if ds \<noteq> [] \<and> list_all isdigit ds
             then Some (if neg then - int (digits_val ds) else int (digits_val ds))
             else None)
          else None)"

definition py_decimal :: "string \<Rightarrow> rat option" where
  "py_decimal b =
     (let ip = takeWhile isdigit b;
          r1 = dropWhile isdigit b;
          (fp, r2) = (case r1 of
                        [] \<Rightarrow> ([], [])
                      | c # r \<Rightarrow> if c = CHR ''.''
                                 then (takeWhile isdigit r, dropWhile isdigit r)
                                 else ([], r1))
      in if ip @ fp = [] then None
         else (case py_exponent r2 of
                 None \<Rightarrow> None
               | Some e \<Rightarrow> Some (scale10 (digits_val (ip @ fp)) (e - int (length fp)))))"

definition py_float :: "string \<Rightarrow> pyfloat option" where
  "py_float s =
     (let (neg, b) = split_sign (strip s);
          lb = map to_lower b
      in if lb = ''inf'' \<or> lb = ''infinity'' then Some (Infinite neg)
         else if lb = ''nan'' then Some NaN
         else (case py_decimal b of
                 None \<Rightarrow> None
               | Some q \<Rightarrow> Some (Finite (if neg then - q else q))))"

section \<open>The value formatter \<^verbatim>\<open>vcf_format\<close>\<close>

text \<open>
  The exceptions of the source as values. A \<^verbatim>\<open>KeyError\<close> raised by the sample-ordering
  dictionary of \<^verbatim>\<open>order\<close> is \<open>UnknownSample\<close>, a \<^verbatim>\<open>KeyError\<close> raised by a column lookup
  \<^verbatim>\<open>gt[...]\<close> is \<open>MissingColumn\<close> (each carries the missing key), a failed \<^verbatim>\<open>assert\<close>
  is \<open>AssertionError\<close>, and an index out of range is \<open>IndexError\<close>.
\<close>

datatype error = UnknownSample string | MissingColumn string | AssertionError | IndexError

datatype vcf_value = VInt int | VFloat pyfloat | VStr string

definition vcf_format :: "string option \<Rightarrow> error + vcf_value" where
  "vcf_format val =
     (case val of
        None \<Rightarrow> Inr (VStr ''.'')
      | Some s \<Rightarrow>
          (case py_int s of
             Some i \<Rightarrow> Inr (VInt i)
           | None \<Rightarrow>
               (case py_float s of
                  Some f \<Rightarrow> Inr (VFloat f)
                | None \<Rightarrow>
                    (let vals = split CHR '','' s in
                     if length vals \<le> 1 then Inr (VStr s)
                     else (case s of
                             [] \<Rightarrow> Inl IndexError
                           | c0 # _ \<Rightarrow>
                               if c0 \<noteq> CHR ''['' then Inr (VStr (join '','' (map strip vals)))
                               else if last s \<noteq> CHR '']'' then Inl AssertionError
                               else Inr (VStr (slice_1_m1 (join '','' (map strip vals)))))))))"

section \<open>Genotype calls and VCF records\<close>

text \<open>
  A genotype call is a dictionary. Its eight required keys are the typed fields of the
  record below (\<^verbatim>\<open>position\<close> is an integer, the others are strings; the key \<^verbatim>\<open>id\<close>
  is the field \<open>id_col\<close>); the optional keys \<^verbatim>\<open>info:NAME\<close> and \<^verbatim>\<open>sample:NAME\<close> are the
  dictionary \<open>columns\<close>, whose values are strings or \<^verbatim>\<open>None\<close>. Looking up a key that a
  call does not have raises \<^verbatim>\<open>KeyError\<close>. Every call has its eight required keys, and
  their values are not \<^verbatim>\<open>None\<close>: a call without one of them, or with a null locus field, is
  outside this model.
\<close>

record genotype =
  contig :: string
  position :: int
  id_col :: string
  reference :: string
  alternates :: string
  quality :: string
  filters :: string
  sample_name :: string
  columns :: "string \<rightharpoonup> string option"



subsection \<open>Helpers of the language\<close>

text \<open>The decimal text of an integer, as \<^verbatim>\<open>'{}'.format\<close> writes it.\<close>

fun nat_digits :: "nat \<Rightarrow> string" where
  "nat_digits n =
     (if n < 10 then [char_of (48 + n)]
      else nat_digits (n div 10) @ [char_of (48 + n mod 10)])"

declare nat_digits.simps [simp del]

definition str_int :: "int \<Rightarrow> string" where
  "str_int i = (if i < 0 then CHR ''-'' # nat_digits (nat (- i)) else nat_digits (nat i))"


text \<open>A dictionary comprehension: a later pair overwrites an earlier one with the same key.\<close>

definition dict_of :: "('k \<times> 'v) list \<Rightarrow> ('k \<rightharpoonup> 'v)" where
  "dict_of kvs = fold (\<lambda>(k, v) d. d(k \<mapsto> v)) kvs Map.empty"

text \<open>
  \<^verbatim>\<open>itertools.groupby\<close>: the maximal runs of consecutive elements with equal keys, each
  with its key, in order.
\<close>

function groupby :: "('a \<Rightarrow> 'k) \<Rightarrow> 'a list \<Rightarrow> ('k \<times> 'a list) list" where
  "groupby key [] = []"
| "groupby key (x # xs) =
     (key x, x # takeWhile (\<lambda>y. key y = key x) xs)
       # groupby key (dropWhile (\<lambda>y. key y = key x) xs)"
  by pat_completeness auto
termination
  by (relation "measure (\<lambda>(key, xs). length xs)")
     (auto simp: length_dropWhile_le less_Suc_eq_le)

definition startswith :: "string \<Rightarrow> string \<Rightarrow> bool" where
  "startswith s p \<longleftrightarrow> take (length p) s = p"

subsection \<open>The functions of \<^verbatim>\<open>maf2vcf.py\<close>\<close>

text \<open>
  \<^verbatim>\<open>order(lst, ordering, key)\<close>, with the list \<^verbatim>\<open>ordering\<close> called \<open>names\<close>. The three forms
  of \<^verbatim>\<open>key\<close> only choose the function \<open>lookup\<close>, which is the parameter here; the source
  calls it with the key \<^verbatim>\<open>'sample_name'\<close>. The dictionary maps each name to its index, a
  name listed twice to the later one. \<^verbatim>\<open>list.sort(key=...)\<close> first computes the key of
  every element, in order (the dictionary lookup raises \<^verbatim>\<open>KeyError\<close> at the first element
  whose name is missing), and then sorts stably by these keys.
\<close>

definition ordering_dict :: "string list \<Rightarrow> (string \<rightharpoonup> nat)" where
  "ordering_dict names = dict_of (zip names [0 ..< length names])"



text \<open>\<^verbatim>\<open>_call_key\<close>: the four locus fields, formatted and joined with \<^verbatim>\<open>-\<close>.\<close>

definition call_key :: "genotype \<Rightarrow> string" where
  "call_key gt =
     contig gt @ ''-'' @ str_int (position gt) @ ''-'' @ reference gt @ ''-'' @ alternates gt"








section \<open>Vocabulary of the claims about the formatter\<close>

definition endswith :: "string \<Rightarrow> string \<Rightarrow> bool" where
  "endswith s p \<longleftrightarrow> drop (length s - length p) s = p \<and> length p \<le> length s"

text \<open>A string that neither \<^verbatim>\<open>int\<close> nor \<^verbatim>\<open>float\<close> accepts.\<close>

definition non_numeric :: "string \<Rightarrow> bool" where
  "non_numeric s \<longleftrightarrow> py_int s = None \<and> py_float s = None"

text \<open>
  A non-numeric string that splits on the comma into more than one piece and starts with
  an opening bracket: with the closing bracket at its end it is a bracketed list, without
  it the input is malformed.
\<close>

definition bracketed_list :: "string \<Rightarrow> bool" where
  "bracketed_list s \<longleftrightarrow>
     non_numeric s \<and> 1 < length (split CHR '','' s) \<and> startswith s ''['' \<and> endswith s '']''"

definition malformed_list :: "string \<Rightarrow> bool" where
  "malformed_list s \<longleftrightarrow>
     non_numeric s \<and> 1 < length (split CHR '','' s) \<and> startswith s ''['' \<and> \<not> endswith s '']''"

text \<open>
  The rendering of a bracketed list in the words of the specification: strip the
  enclosing brackets, trim each comma-separated piece, rejoin with commas.
\<close>

definition strip_brackets_then_trim :: "string \<Rightarrow> string" where
  "strip_brackets_then_trim s = join '','' (map strip (split CHR '','' (slice_1_m1 s)))"

section \<open>Vocabulary of the claims about records\<close>

text \<open>
  A decomposition of a list into maximal runs of equal keys: the runs are non-empty, in
  order, each of one key, and two neighbouring runs have different keys.
\<close>

definition maximal_runs :: "('a \<Rightarrow> 'k) \<Rightarrow> 'a list \<Rightarrow> 'a list list \<Rightarrow> bool" where
  "maximal_runs key xs runs \<longleftrightarrow>
     concat runs = xs
     \<and> (\<forall>r \<in> set runs. r \<noteq> [] \<and> (\<exists>k. \<forall>x \<in> set r. key x = k))
     \<and> distinct_adj (map (\<lambda>r. key (hd r)) runs)"





section \<open>Properties of the string operations\<close>

lemma split_not_Nil: "split c s \<noteq> []"
  by (induction s) (auto split: list.splits)

lemma split_Cons_other: "x \<noteq> c \<Longrightarrow> split c (x # s) = (x # hd (split c s)) # tl (split c s)"
  using split_not_Nil [of c s] by (cases "split c s") auto

lemma split_Cons_sep: "split c (c # s) = [] # split c s"
  by simp

declare split.simps(2) [simp del]

lemma length_split: "length (split c s) = Suc (length (filter (\<lambda>x. x = c) s))"
proof (induction s)
  case Nil
  show ?case by simp
next
  case (Cons x s)
  then show ?case
    using split_not_Nil [of c s] by (cases "x = c") (simp_all add: split_Cons_sep split_Cons_other)
qed

lemma length_split_gt1: "1 < length (split c s) \<longleftrightarrow> c \<in> set s"
  by (simp add: length_split filter_empty_conv)

lemma split_no_sep: "p \<in> set (split c s) \<Longrightarrow> c \<notin> set p"
proof (induction s arbitrary: p)
  case Nil
  then show ?case by simp
next
  case (Cons x s)
  show ?case
  proof (cases "x = c")
    case True
    with Cons show ?thesis by (auto simp: split_Cons_sep)
  next
    case False
    with Cons.prems have "p = x # hd (split c s) \<or> p \<in> set (tl (split c s))"
      by (simp add: split_Cons_other)
    moreover have "hd (split c s) \<in> set (split c s)"
      by (simp add: split_not_Nil)
    moreover have "set (tl (split c s)) \<subseteq> set (split c s)"
      by (cases "split c s") auto
    ultimately show ?thesis using Cons.IH False by auto
  qed
qed

lemma join_Cons: "ps \<noteq> [] \<Longrightarrow> join sep (p # ps) = p @ sep @ join sep ps"
  by (cases ps) auto

lemma join_split: "join [c] (split c s) = s"
proof (induction s)
  case Nil
  show ?case by simp
next
  case (Cons x s)
  show ?case
  proof (cases "x = c")
    case True
    with Cons show ?thesis by (simp add: join_Cons split_not_Nil split_Cons_sep)
  next
    case False
    obtain p ps where ps: "split c s = p # ps"
      using split_not_Nil [of c s] by (cases "split c s") auto
    with Cons False show ?thesis by (cases ps) (auto simp: split_Cons_other)
  qed
qed

lemma split_append_nosep: "c \<notin> set p \<Longrightarrow> split c (p @ s) = (p @ hd (split c s)) # tl (split c s)"
  by (induction p) (auto simp: split_not_Nil split_Cons_other)

lemma split_join:
  "ps \<noteq> [] \<Longrightarrow> (\<And>p. p \<in> set ps \<Longrightarrow> c \<notin> set p) \<Longrightarrow> split c (join [c] ps) = ps"
proof (induction ps rule: induct_list012)
  case 1
  then show ?case by simp
next
  case (2 p)
  then show ?case using split_append_nosep [of c p "[]"] by simp
next
  case (3 p q ps)
  have "split c (join [c] (p # q # ps)) = split c (p @ c # join [c] (q # ps))"
    by simp
  also have "\<dots> = (p @ []) # split c (join [c] (q # ps))"
    using "3.prems"(2) [of p] by (simp add: split_append_nosep split_Cons_sep)
  also have "split c (join [c] (q # ps)) = q # ps"
    using 3 by simp
  finally show ?case by simp
qed

lemma lstrip_cases: "lstrip s = [] \<or> \<not> isspace (hd (lstrip s))"
  unfolding lstrip_def by (metis hd_dropWhile)

lemma rstrip_decomp: "\<exists>w. s = rstrip s @ w \<and> list_all isspace w"
proof -
  have "rev s = takeWhile isspace (rev s) @ dropWhile isspace (rev s)"
    by simp
  then have "s = rev (dropWhile isspace (rev s)) @ rev (takeWhile isspace (rev s))"
    by (metis rev_append rev_rev_ident)
  moreover have "list_all isspace (rev (takeWhile isspace (rev s)))"
    by (simp add: list_all_iff) (metis set_takeWhileD)
  ultimately show ?thesis unfolding rstrip_def by blast
qed

lemma lstrip_decomp: "\<exists>w. s = w @ lstrip s \<and> list_all isspace w"
proof -
  have "s = takeWhile isspace s @ dropWhile isspace s"
    by simp
  moreover have "list_all isspace (takeWhile isspace s)"
    by (simp add: list_all_iff) (metis set_takeWhileD)
  ultimately show ?thesis unfolding lstrip_def by blast
qed

lemma rstrip_cases: "rstrip s = [] \<or> \<not> isspace (last (rstrip s))"
  unfolding rstrip_def by (metis hd_dropWhile last_rev rev_is_Nil_conv)

lemma lstrip_id: "s = [] \<or> \<not> isspace (hd s) \<Longrightarrow> lstrip s = s"
  unfolding lstrip_def by (cases s) auto

lemma rstrip_id: "s = [] \<or> \<not> isspace (last s) \<Longrightarrow> rstrip s = s"
  unfolding rstrip_def by (cases s rule: rev_cases) auto

lemma hd_rstrip: "rstrip s \<noteq> [] \<Longrightarrow> hd (rstrip s) = hd s"
  using rstrip_decomp [of s] by (metis hd_append2)

lemma strip_cases: "strip s = [] \<or> (\<not> isspace (hd (strip s)) \<and> \<not> isspace (last (strip s)))"
  unfolding strip_def using lstrip_cases [of s] rstrip_cases [of "lstrip s"] hd_rstrip [of "lstrip s"]
  by (metis rstrip_def dropWhile.simps(1) rev.simps(1))

lemma strip_id: "s = [] \<or> (\<not> isspace (hd s) \<and> \<not> isspace (last s)) \<Longrightarrow> strip s = s"
  unfolding strip_def by (metis lstrip_id rstrip_id)

lemma strip_idem: "strip (strip s) = strip s"
  using strip_cases [of s] by (rule strip_id)

lemma set_strip: "set (strip p) \<subseteq> set p"
  unfolding strip_def rstrip_def lstrip_def by (metis set_dropWhileD set_rev subsetI)

section \<open>Numeric strings contain no comma\<close>

lemma comma_not_space: "\<not> isspace CHR '',''"
  by (simp add: isspace_def)

lemma comma_not_digit: "\<not> isdigit CHR '',''"
  by (simp add: isdigit_def)

lemma set_strip_sup: "set s \<subseteq> set (strip s) \<union> {c. isspace c}"
proof -
  obtain w1 where w1: "s = w1 @ lstrip s" "list_all isspace w1"
    using lstrip_decomp by blast
  obtain w2 where w2: "lstrip s = strip s @ w2" "list_all isspace w2"
    unfolding strip_def using rstrip_decomp by blast
  have "set s = set w1 \<union> set (strip s) \<union> set w2"
    using w1(1) w2(1) by (metis set_append sup_assoc)
  then show ?thesis using w1(2) w2(2) by (auto simp: list_all_iff)
qed

lemma comma_strip: "CHR '','' \<in> set s \<longleftrightarrow> CHR '','' \<in> set (strip s)"
  using set_strip_sup [of s] set_strip [of s] comma_not_space by auto

lemma comma_split_sign: "split_sign t = (neg, b) \<Longrightarrow> CHR '','' \<in> set t \<longleftrightarrow> CHR '','' \<in> set b"
  by (auto simp: split_sign_def split: list.splits if_splits)

lemma digits_no_comma: "list_all isdigit ds \<Longrightarrow> CHR '','' \<notin> set ds"
  using comma_not_digit by (auto simp: list_all_iff)

lemma py_int_no_comma: "py_int s = Some i \<Longrightarrow> CHR '','' \<notin> set s"
proof -
  assume a: "py_int s = Some i"
  obtain neg ds where sd: "split_sign (strip s) = (neg, ds)"
    by (cases "split_sign (strip s)")
  with a have "list_all isdigit ds"
    by (simp add: py_int_def split: if_splits)
  then have "CHR '','' \<notin> set ds" by (rule digits_no_comma)
  then show ?thesis using comma_split_sign [OF sd] comma_strip [of s] by simp
qed

lemma py_exponent_no_comma: "py_exponent r = Some e \<Longrightarrow> CHR '','' \<notin> set r"
proof (cases r)
  case Nil
  then show ?thesis by simp
next
  case (Cons c r')
  assume a: "py_exponent r = Some e"
  obtain neg ds where sd: "split_sign r' = (neg, ds)"
    by (cases "split_sign r'")
  from a Cons sd have c: "c = CHR ''e'' \<or> c = CHR ''E''" and "list_all isdigit ds"
    by (auto simp: py_exponent_def split: if_splits)
  then have "CHR '','' \<notin> set r'"
    using comma_split_sign [OF sd] digits_no_comma by simp
  with c Cons show ?thesis by auto
qed

lemma takeWhile_digit_no_comma: "CHR '','' \<notin> set (takeWhile isdigit b)"
  using comma_not_digit by (metis set_takeWhileD)

lemma py_decimal_no_comma:
  assumes "py_decimal b = Some q"
  shows "CHR '','' \<notin> set b"
proof -
  define r1 where "r1 = dropWhile isdigit b"
  have b: "b = takeWhile isdigit b @ r1"
    by (simp add: r1_def)
  have "CHR '','' \<notin> set r1"
  proof (cases r1)
    case Nil
    then show ?thesis by simp
  next
    case (Cons c r)
    show ?thesis
    proof (cases "c = CHR ''.''")
      case True
      with assms Cons have "py_exponent (dropWhile isdigit r) \<noteq> None"
        by (auto simp: py_decimal_def Let_def r1_def [symmetric] split: if_splits option.splits)
      then have "CHR '','' \<notin> set (dropWhile isdigit r)"
        using py_exponent_no_comma by blast
      moreover have "r = takeWhile isdigit r @ dropWhile isdigit r"
        by simp
      ultimately have "CHR '','' \<notin> set r"
        using takeWhile_digit_no_comma [of r] by (metis Un_iff set_append)
      with True Cons show ?thesis by simp
    next
      case False
      with assms Cons have "py_exponent r1 \<noteq> None"
        by (auto simp: py_decimal_def Let_def r1_def [symmetric] split: if_splits option.splits)
      then show ?thesis using py_exponent_no_comma by blast
    qed
  qed
  then show ?thesis using b takeWhile_digit_no_comma [of b] by (metis Un_iff set_append)
qed

lemma to_lower_comma: "to_lower CHR '','' = CHR '',''"
  by (simp add: to_lower_def)

lemma py_float_no_comma:
  assumes "py_float s = Some f"
  shows "CHR '','' \<notin> set s"
proof -
  obtain neg b where sd: "split_sign (strip s) = (neg, b)"
    by (cases "split_sign (strip s)")
  have "CHR '','' \<notin> set b"
  proof
    assume c: "CHR '','' \<in> set b"
    then have "CHR '','' \<in> set (map to_lower b)"
      using to_lower_comma by (metis image_eqI set_map)
    then have "map to_lower b \<noteq> ''inf''" "map to_lower b \<noteq> ''infinity''" "map to_lower b \<noteq> ''nan''"
      by auto
    with assms sd have "py_decimal b \<noteq> None"
      by (auto simp: py_float_def Let_def split: option.splits)
    with c show False using py_decimal_no_comma by blast
  qed
  then show ?thesis using comma_split_sign [OF sd] comma_strip [of s] by simp
qed

section \<open>Evaluating the formatter\<close>

lemmas str_eval = strip_def lstrip_def rstrip_def isspace_def slice_1_m1_def split.simps

lemmas num_eval = py_int_def py_float_def py_decimal_def py_exponent_def split_sign_def
  isdigit_def to_lower_def scale10_def digits_val_def digit_val_def

text \<open>
  Claim C6. The formatter maps \<^verbatim>\<open>None\<close> to the missing marker \<^verbatim>\<open>"."\<close>, \<^verbatim>\<open>"42"\<close> to the
  integer 42, \<^verbatim>\<open>"3.14"\<close> to the float 3.14, the bare list \<^verbatim>\<open>"A,B,C"\<close> to itself and the
  bracketed list \<^verbatim>\<open>"[A, B,C]"\<close> to \<^verbatim>\<open>"A,B,C"\<close>.
\<close>

theorem vcf_format_examples:
  "vcf_format None = Inr (VStr ''.'')
   \<and> vcf_format (Some ''42'') = Inr (VInt 42)
   \<and> vcf_format (Some ''3.14'') = Inr (VFloat (Finite 3.14))
   \<and> vcf_format (Some ''A,B,C'') = Inr (VStr ''A,B,C'')
   \<and> vcf_format (Some ''[A, B,C]'') = Inr (VStr ''A,B,C'')"
proof -
  have none: "vcf_format None = Inr (VStr ''.'')"
    by (simp add: vcf_format_def)
  have int: "vcf_format (Some ''42'') = Inr (VInt 42)"
    by (simp add: vcf_format_def str_eval num_eval)
  have float: "vcf_format (Some ''3.14'') = Inr (VFloat (Finite 3.14))"
    by (simp add: vcf_format_def str_eval num_eval)
  have bare: "vcf_format (Some ''A,B,C'') = Inr (VStr ''A,B,C'')"
    by (simp add: vcf_format_def str_eval num_eval)
  have bracketed: "vcf_format (Some ''[A, B,C]'') = Inr (VStr ''A,B,C'')"
    by (simp add: vcf_format_def str_eval num_eval)
  from none int float bare bracketed show ?thesis by blast
qed

text \<open>
  Claim C10. The empty string takes the text path and is returned as it is; only
  \<^verbatim>\<open>None\<close> becomes the missing marker, so an empty stored value and an absent one are
  formatted differently.
\<close>

theorem vcf_format_empty_string:
  "vcf_format (Some '''') = Inr (VStr '''')
   \<and> vcf_format None = Inr (VStr ''.'')
   \<and> vcf_format (Some '''') \<noteq> vcf_format None"
  by (simp add: vcf_format_def str_eval num_eval)

section \<open>The paths of the formatter\<close>

lemma startswith_bracket: "startswith s ''['' \<longleftrightarrow> (\<exists>r. s = CHR ''['' # r)"
  by (cases s) (auto simp: startswith_def)

lemma endswith_bracket: "endswith s '']'' \<longleftrightarrow> s \<noteq> [] \<and> last s = CHR '']''"
proof (cases s rule: rev_cases)
  case Nil
  then show ?thesis by (simp add: endswith_def)
next
  case (snoc r c)
  then show ?thesis by (auto simp: endswith_def)
qed

lemma vcf_format_single:
  "non_numeric s \<Longrightarrow> CHR '','' \<notin> set s \<Longrightarrow> vcf_format (Some s) = Inr (VStr s)"
  using length_split_gt1 [of "CHR '',''" s]
  by (simp add: vcf_format_def non_numeric_def Let_def)

lemma vcf_format_multi:
  assumes "non_numeric s" and "CHR '','' \<in> set s"
  shows "vcf_format (Some s) =
           (if \<not> startswith s ''[''
            then Inr (VStr (join '','' (map strip (split CHR '','' s))))
            else if \<not> endswith s '']'' then Inl AssertionError
            else Inr (VStr (slice_1_m1 (join '','' (map strip (split CHR '','' s))))))"
proof -
  from assms(2) obtain c r where s: "s = c # r" by (cases s) auto
  have len: "\<not> length (split CHR '','' s) \<le> 1"
    using assms(2) length_split_gt1 [of "CHR '',''" s] by simp
  have sw: "startswith s ''['' \<longleftrightarrow> c = CHR ''[''"
    using s by (simp add: startswith_def)
  have ew: "endswith s '']'' \<longleftrightarrow> last s = CHR '']''"
    using s by (simp add: endswith_bracket)
  show ?thesis
    using assms(1) len unfolding vcf_format_def non_numeric_def Let_def sw ew
    by (simp add: s del: split.simps)
qed

lemma numeric_no_comma: "\<not> non_numeric s \<Longrightarrow> CHR '','' \<notin> set s"
  unfolding non_numeric_def using py_int_no_comma py_float_no_comma by auto

lemma vcf_format_numeric: "\<not> non_numeric s \<Longrightarrow> \<exists>v. vcf_format (Some s) = Inr v"
  by (auto simp: vcf_format_def non_numeric_def split: option.splits)

text \<open>
  Claim C8. The formatter raises exactly on a malformed list: a string that parses neither
  as an integer nor as a float, splits on the comma into more than one piece, starts with
  an opening bracket and does not end with a closing bracket. The exception is then the
  failed assertion. On \<^verbatim>\<open>None\<close> and on every other string it returns a value; in
  particular the cascade from \<^verbatim>\<open>int\<close> to \<^verbatim>\<open>float\<close> to text never raises.
\<close>

theorem vcf_format_raises_iff:
  "(\<exists>e. vcf_format val = Inl e) = (\<exists>s. val = Some s \<and> malformed_list s)
   \<and> (\<exists>v. vcf_format val = Inr v) = (\<not> (\<exists>s. val = Some s \<and> malformed_list s))
   \<and> (vcf_format val = Inl AssertionError) = (\<exists>e. vcf_format val = Inl e)"
proof (cases val)
  case None
  then show ?thesis by (simp add: vcf_format_def)
next
  case (Some s)
  show ?thesis
  proof (cases "non_numeric s")
    case False
    then have "\<not> malformed_list s" by (simp add: malformed_list_def)
    moreover from False obtain v where "vcf_format (Some s) = Inr v"
      using vcf_format_numeric by blast
    ultimately show ?thesis using Some by simp
  next
    case True
    show ?thesis
    proof (cases "CHR '','' \<in> set s")
      case False
      then have "\<not> malformed_list s"
        using length_split_gt1 [of "CHR '',''" s] by (simp add: malformed_list_def)
      then show ?thesis using Some vcf_format_single [OF True False] by simp
    next
      case comma: True
      have m: "malformed_list s \<longleftrightarrow> startswith s ''['' \<and> \<not> endswith s '']''"
        using True comma length_split_gt1 [of "CHR '',''" s] by (simp add: malformed_list_def)
      show ?thesis unfolding Some vcf_format_multi [OF True comma] using m by auto
    qed
  qed
qed

section \<open>Bracketed lists\<close>

lemma join_snoc: "join sep (ps @ [p @ x]) = join sep (ps @ [p]) @ x"
  by (induction ps rule: induct_list012) auto

lemma split_snoc_other:
  "x \<noteq> c \<Longrightarrow> split c (s @ [x]) = butlast (split c s) @ [last (split c s) @ [x]]"
proof (induction s)
  case Nil
  then show ?case by (simp add: split_Cons_other)
next
  case (Cons y s)
  obtain p ps where ps: "split c s = p # ps"
    using split_not_Nil [of c s] by (cases "split c s") auto
  have ne: "split c (s @ [x]) \<noteq> []" by (rule split_not_Nil)
  show ?case
  proof (cases "y = c")
    case True
    with Cons ps show ?thesis by (simp add: split_Cons_sep)
  next
    case False
    with Cons ps show ?thesis by (cases ps) (simp_all add: split_Cons_other)
  qed
qed

lemma strip_bracket_Cons: "strip (CHR ''['' # q) = CHR ''['' # rstrip q"
proof -
  have ns: "\<not> isspace CHR ''[''" by (simp add: isspace_def)
  have "rstrip (CHR ''['' # q) = CHR ''['' # rstrip q"
  proof (cases "dropWhile isspace (rev q) = []")
    case True
    then have "\<forall>x \<in> set (rev q). isspace x" by (simp add: dropWhile_eq_Nil_conv)
    then have "dropWhile isspace (rev q @ ''['') = dropWhile isspace ''[''"
      by (intro dropWhile_append2) auto
    then have "dropWhile isspace (rev q @ ''['') = ''[''"
      using ns by simp
    with True show ?thesis by (simp add: rstrip_def)
  next
    case False
    then have "dropWhile isspace (rev q @ ''['') = dropWhile isspace (rev q) @ ''[''"
      by (metis dropWhile_append1 dropWhile_eq_Nil_conv)
    then show ?thesis by (simp add: rstrip_def)
  qed
  then show ?thesis using ns by (simp add: strip_def lstrip_def)
qed

lemma strip_snoc_bracket: "strip (q @ '']'') = lstrip q @ '']''"
proof -
  have ns: "\<not> isspace CHR '']''" by (simp add: isspace_def)
  have l: "lstrip (q @ '']'') = lstrip q @ '']''"
  proof (cases "dropWhile isspace q = []")
    case True
    then have "\<forall>x \<in> set q. isspace x" by (simp add: dropWhile_eq_Nil_conv)
    then have "dropWhile isspace (q @ '']'') = dropWhile isspace '']''"
      by (intro dropWhile_append2) auto
    then have "dropWhile isspace (q @ '']'') = '']''"
      using ns by simp
    with True show ?thesis by (simp add: lstrip_def)
  next
    case False
    then have "dropWhile isspace (q @ '']'') = dropWhile isspace q @ '']''"
      by (metis dropWhile_append1 dropWhile_eq_Nil_conv)
    then show ?thesis by (simp add: lstrip_def)
  qed
  have "rstrip (lstrip q @ '']'') = lstrip q @ '']''"
    using ns by (simp add: rstrip_def)
  with l show ?thesis by (simp add: strip_def)
qed

text \<open>The pieces of a bracketed list, in terms of the pieces of its inside.\<close>

lemma split_bracketed:
  assumes "split CHR '','' m = q0 # mid @ [qn]"
  shows "split CHR '','' (CHR ''['' # m @ '']'') = (CHR ''['' # q0) # mid @ [qn @ '']'']"
proof -
  have "split CHR '','' (m @ '']'') = q0 # mid @ [qn @ '']'']"
    using assms split_snoc_other [of "CHR '']''" "CHR '',''" m]
    by (simp add: butlast_append)
  then show ?thesis by (simp add: split_Cons_other)
qed

lemma slice_bracketed: "slice_1_m1 (CHR ''['' # t @ '']'') = t"
  by (simp add: slice_1_m1_def butlast_append)

lemma join_bracketed:
  "slice_1_m1 (join '','' ((CHR ''['' # a) # mid @ [b @ '']''])) = join '','' (a # mid @ [b])"
proof -
  have "join '','' ((CHR ''['' # a) # mid @ [b @ '']'']) = CHR ''['' # join '','' (a # mid @ [b]) @ '']''"
    using join_snoc [of "'',''" "(CHR ''['' # a) # mid" b "'']''"]
    by (simp add: join_Cons)
  then show ?thesis by (simp only: slice_bracketed)
qed

lemma list_two_decomp: "1 < length qs \<Longrightarrow> \<exists>q0 mid qn. qs = q0 # mid @ [qn]"
proof -
  assume "1 < length qs"
  then obtain q0 r where "qs = q0 # r" "r \<noteq> []" by (cases qs) auto
  then show ?thesis by (metis append_butlast_last_id)
qed

text \<open>The shape of a bracketed list and of the result of the source on it.\<close>

lemma bracketed_shape:
  assumes "startswith s ''[''" "endswith s '']''" "CHR '','' \<in> set s"
  shows "\<exists>m q0 mid qn. s = CHR ''['' # m @ '']'' \<and> split CHR '','' m = q0 # mid @ [qn]"
proof -
  from assms(1) obtain r where r: "s = CHR ''['' # r" by (auto simp: startswith_bracket)
  with assms(3) have "r \<noteq> []" by auto
  with assms(2) r have "last r = CHR '']''" by (simp add: endswith_bracket)
  with \<open>r \<noteq> []\<close> obtain m where m: "r = m @ '']''" by (metis append_butlast_last_id)
  with r assms(3) have "CHR '','' \<in> set m" by auto
  then have "1 < length (split CHR '','' m)" by (simp only: length_split_gt1)
  then obtain q0 mid qn where "split CHR '','' m = q0 # mid @ [qn]"
    using list_two_decomp by blast
  with r m show ?thesis by blast
qed

lemma vcf_format_bracketed_pieces:
  assumes "bracketed_list s" "s = CHR ''['' # m @ '']''" "split CHR '','' m = q0 # mid @ [qn]"
  shows "vcf_format (Some s) = Inr (VStr (join '','' (rstrip q0 # map strip mid @ [lstrip qn])))"
proof -
  have nn: "non_numeric s" and comma: "CHR '','' \<in> set s"
    and sw: "startswith s ''[''" and ew: "endswith s '']''"
    using assms(1) length_split_gt1 [of "CHR '',''" s] by (simp_all add: bracketed_list_def)
  have "map strip (split CHR '','' s) = (CHR ''['' # rstrip q0) # map strip mid @ [lstrip qn @ '']'']"
    unfolding assms(2) split_bracketed [OF assms(3)]
    by (simp add: strip_bracket_Cons strip_snoc_bracket)
  then show ?thesis
    unfolding vcf_format_multi [OF nn comma] using sw ew by (simp add: join_bracketed)
qed

lemma startswith_append_comma:
  "startswith (a @ CHR '','' # b) ''['' \<longleftrightarrow> startswith a ''[''"
  by (cases a) (auto simp: startswith_def)

lemma startswith_rstrip: "startswith (rstrip t) ''['' \<longleftrightarrow> startswith t ''[''"
proof
  assume "startswith (rstrip t) ''[''"
  then obtain r where "rstrip t = CHR ''['' # r" by (auto simp: startswith_bracket)
  then show "startswith t ''[''"
    using rstrip_decomp [of t] by (metis append_Cons startswith_bracket)
next
  assume "startswith t ''[''"
  then obtain r where "t = CHR ''['' # r" by (auto simp: startswith_bracket)
  then have "rstrip t = CHR ''['' # rstrip r"
    using strip_bracket_Cons [of r] by (simp add: strip_def lstrip_def isspace_def)
  then show "startswith (rstrip t) ''[''" by (simp add: startswith_bracket)
qed

lemma startswith_strip: "startswith (strip t) ''['' \<longleftrightarrow> startswith (lstrip t) ''[''"
  by (simp add: strip_def startswith_rstrip)

lemma lstrip_append_comma:
  "startswith (lstrip (q @ CHR '','' # r)) ''['' \<longleftrightarrow> startswith (lstrip q) ''[''"
proof (cases "dropWhile isspace q = []")
  case True
  then have "\<forall>x \<in> set q. isspace x" by (simp add: dropWhile_eq_Nil_conv)
  then have "dropWhile isspace (q @ CHR '','' # r) = dropWhile isspace (CHR '','' # r)"
    by (intro dropWhile_append2) auto
  then have "lstrip (q @ CHR '','' # r) = CHR '','' # r"
    using comma_not_space by (simp add: lstrip_def)
  moreover have "lstrip q = []" using True by (simp only: lstrip_def)
  ultimately show ?thesis by (simp add: startswith_def)
next
  case False
  then have "dropWhile isspace (q @ CHR '','' # r) = dropWhile isspace q @ CHR '','' # r"
    by (metis dropWhile_append1 dropWhile_eq_Nil_conv)
  then show ?thesis by (simp add: lstrip_def startswith_append_comma)
qed

lemma strip_eq_rstrip: "q = [] \<or> \<not> isspace (hd q) \<Longrightarrow> strip q = rstrip q"
  by (simp add: strip_def lstrip_id)

lemma strip_eq_lstrip:
  assumes "q = [] \<or> \<not> isspace (last q)"
  shows "strip q = lstrip q"
proof (cases "q = []")
  case True
  then show ?thesis by (simp add: strip_def lstrip_def rstrip_def)
next
  case False
  with assms have ns: "\<not> isspace (last q)" by simp
  obtain w where w: "q = w @ lstrip q" "list_all isspace w"
    using lstrip_decomp by blast
  have "lstrip q \<noteq> []"
  proof
    assume "lstrip q = []"
    with w False have "isspace (last q)" by (simp add: list_all_iff)
    with ns show False by simp
  qed
  then have "last (lstrip q) = last q" using w(1) by (metis last_appendR)
  with ns show ?thesis by (simp add: strip_def rstrip_id)
qed

text \<open>A comma-joined list of trimmed pieces that does not start with a bracket is returned as it is.\<close>

lemma vcf_format_fixpoint:
  assumes "1 < length qs" and "\<And>q. q \<in> set qs \<Longrightarrow> CHR '','' \<notin> set q"
    and "\<not> startswith (join '','' (map strip qs)) ''[''"
  shows "vcf_format (Some (join '','' (map strip qs))) = Inr (VStr (join '','' (map strip qs)))"
proof -
  define y where "y = join '','' (map strip qs)"
  have ne: "map strip qs \<noteq> []" using assms(1) by auto
  have nc: "\<And>p. p \<in> set (map strip qs) \<Longrightarrow> CHR '','' \<notin> set p"
    using assms(2) set_strip by fastforce
  have sp: "split CHR '','' y = map strip qs"
    unfolding y_def using split_join [OF ne nc] by simp
  then have "1 < length (split CHR '','' y)" using assms(1) by simp
  then have comma: "CHR '','' \<in> set y" by (simp only: length_split_gt1)
  then have nn: "non_numeric y" using numeric_no_comma by blast
  have idem: "map strip (map strip qs) = map strip qs" by (simp add: strip_idem)
  have "vcf_format (Some y) = Inr (VStr (join '','' (map strip (split CHR '','' y))))"
    using vcf_format_multi [OF nn comma] assms(3) unfolding y_def by simp
  then show ?thesis unfolding sp idem unfolding y_def .
qed

lemma split_prefix:
  assumes "split CHR '','' m = q0 # r" "r \<noteq> []"
  shows "\<exists>t. m = q0 @ CHR '','' # t"
proof -
  have "m = join '','' (q0 # r)" using join_split [of "CHR '',''" m] assms(1) by simp
  then show ?thesis using assms(2) by (simp add: join_Cons)
qed

lemma split_suffix:
  assumes "split CHR '','' m = r @ [qn]" "r \<noteq> []"
  shows "\<exists>t. m = t @ CHR '','' # qn"
proof -
  have "join '','' (r @ [[] @ qn]) = join '','' (r @ [[]]) @ qn" by (rule join_snoc)
  moreover have "\<exists>t. join '','' (r @ [[]]) = t @ '',''"
    using assms(2)
  proof (induction r rule: induct_list012)
    case 1 then show ?case by simp
  next
    case (2 x) then show ?case by simp
  next
    case (3 x y zs)
    then obtain t where "join '','' ((y # zs) @ [[]]) = t @ '',''" by auto
    then have "join '','' ((x # y # zs) @ [[]]) = (x @ '','' @ t) @ '',''" by simp
    then show ?case by blast
  qed
  moreover have "m = join '','' (r @ [qn])"
    using join_split [of "CHR '',''" m] assms(1) by simp
  ultimately show ?thesis by auto
qed

lemma bracketed_list_comma: "bracketed_list s \<Longrightarrow> CHR '','' \<in> set s"
  using length_split_gt1 [of "CHR '',''" s] by (simp add: bracketed_list_def)

text \<open>
  With no whitespace directly inside the brackets, the first and the last piece of the
  inside are trimmed by the source as the other pieces are.
\<close>

lemma bracketed_trimmed_pieces:
  assumes "s = CHR ''['' # m @ '']''" "split CHR '','' m = q0 # mid @ [qn]"
    and "\<not> isspace (s ! 1)" "\<not> isspace (s ! (length s - 2))"
  shows "rstrip q0 = strip q0" and "lstrip qn = strip qn"
    and "q0 = [] \<or> hd q0 = s ! 1"
proof -
  obtain t where t: "m = q0 @ CHR '','' # t"
    using split_prefix [OF assms(2)] by auto
  have "split CHR '','' m = (q0 # mid) @ [qn]" using assms(2) by simp
  then obtain t' where t': "m = t' @ CHR '','' # qn"
    using split_suffix by blast
  have "s ! 1 = hd m" using assms(1) t by (cases q0) auto
  then show hd: "q0 = [] \<or> hd q0 = s ! 1" using t by (cases q0) auto
  with assms(3) show "rstrip q0 = strip q0" by (metis strip_eq_rstrip)
  have "length s - 2 = length m" using assms(1) by simp
  then have "s ! (length s - 2) = (m @ '']'') ! (length m - 1)"
    using assms(1) t by (simp add: nth_Cons')
  also have "\<dots> = last m"
  proof -
    have "m \<noteq> []" using t by simp
    then show ?thesis by (simp add: nth_append last_conv_nth)
  qed
  finally have "qn = [] \<or> last qn = s ! (length s - 2)" using t' by auto
  with assms(4) show "lstrip qn = strip qn" by (metis strip_eq_lstrip)
qed

lemma vcf_format_bracketed_trimmed:
  assumes "bracketed_list s" "\<not> isspace (s ! 1)" "\<not> isspace (s ! (length s - 2))"
  shows "vcf_format (Some s) = Inr (VStr (strip_brackets_then_trim s))"
proof -
  have "startswith s ''[''" "endswith s '']''"
    using assms(1) by (simp_all add: bracketed_list_def)
  then obtain m q0 mid qn where
    s: "s = CHR ''['' # m @ '']''" and sp: "split CHR '','' m = q0 # mid @ [qn]"
    using bracketed_shape [OF _ _ bracketed_list_comma [OF assms(1)]] by blast
  have "vcf_format (Some s) = Inr (VStr (join '','' (rstrip q0 # map strip mid @ [lstrip qn])))"
    by (rule vcf_format_bracketed_pieces [OF assms(1) s sp])
  also have "rstrip q0 # map strip mid @ [lstrip qn] = map strip (split CHR '','' m)"
    using bracketed_trimmed_pieces(1,2) [OF s sp assms(2,3)] sp by simp
  also have "m = slice_1_m1 s" using s by (simp only: slice_bracketed)
  finally show ?thesis by (simp only: strip_brackets_then_trim_def)
qed

lemmas fmt_eval = vcf_format_def non_numeric_def bracketed_list_def strip_brackets_then_trim_def
  startswith_def endswith_def str_eval num_eval

text \<open>
  Claim C7. For a bracketed list the formatter is to return the string obtained by
  stripping the enclosing brackets, trimming each comma-separated piece and rejoining the
  pieces with commas (\<^const>\<open>strip_brackets_then_trim\<close>). The source trims the pieces while the
  brackets are still attached to the first and the last one and removes the brackets
  afterwards, so whitespace next to a bracket survives: on \<^verbatim>\<open>"[ A,B ]"\<close> it returns
  \<^verbatim>\<open>" A,B "\<close>, where the claim requires \<^verbatim>\<open>"A,B"\<close>, which is also what the branch for bare
  lists returns on the same content \<^verbatim>\<open>" A,B "\<close>. Where no whitespace stands next to a
  bracket, source and claim agree (lemma \<open>vcf_format_bracketed_trimmed\<close>).
\<close>

theorem vcf_format_bracketed_list_blanks:
  "bracketed_list ''[ A,B ]''
   \<and> vcf_format (Some ''[ A,B ]'') = Inr (VStr '' A,B '')
   \<and> strip_brackets_then_trim ''[ A,B ]'' = ''A,B''
   \<and> vcf_format (Some '' A,B '') = Inr (VStr ''A,B'')"
  by (simp add: fmt_eval)

text \<open>
  Claim C9, as amended. For a string \<open>s\<close> that parses neither as an integer nor as a
  float and on which the formatter returns the text \<open>y\<close>, formatting \<open>y\<close> again returns
  \<open>y\<close>, provided that \<open>s\<close> has no comma (text path), or that its first character after
  leading whitespace is not an opening bracket (bare list), or that it is a bracketed list
  whose second character is neither whitespace nor another opening bracket and whose last
  character before the closing bracket is not whitespace.
\<close>

theorem vcf_format_idempotent:
  assumes "non_numeric s" and "vcf_format (Some s) = Inr (VStr y)"
    and "CHR '','' \<notin> set s
         \<or> \<not> startswith (lstrip s) ''[''
         \<or> (startswith s ''['' \<and> \<not> isspace (s ! 1) \<and> s ! 1 \<noteq> CHR ''[''
             \<and> \<not> isspace (s ! (length s - 2)))"
  shows "vcf_format (Some y) = Inr (VStr y)"
proof (cases "CHR '','' \<in> set s")
  case False
  then have "y = s" using vcf_format_single [OF assms(1)] assms(2) by simp
  with assms(2) show ?thesis by simp
next
  case comma: True
  have pieces: "1 < length (split CHR '','' s)"
    using comma by (simp only: length_split_gt1)
  show ?thesis
  proof (cases "startswith s ''[''")
    case False
    have y: "y = join '','' (map strip (split CHR '','' s))"
      using vcf_format_multi [OF assms(1) comma] False assms(2) by simp
    obtain q0 r where qs: "split CHR '','' s = q0 # r" "r \<noteq> []"
      using pieces by (cases "split CHR '','' s") auto
    then obtain t where t: "s = q0 @ CHR '','' # t"
      using split_prefix by blast
    have "\<not> startswith (lstrip s) ''[''"
      using assms(3) comma False by blast
    then have "\<not> startswith (strip q0) ''[''"
      unfolding t by (simp add: lstrip_append_comma startswith_strip)
    then have "\<not> startswith (join '','' (map strip (split CHR '','' s))) ''[''"
      using qs by (simp add: join_Cons startswith_append_comma)
    then show ?thesis
      unfolding y using pieces split_no_sep by (intro vcf_format_fixpoint) auto
  next
    case True
    have "lstrip s = s" using True by (auto simp: startswith_bracket lstrip_def isspace_def)
    with assms(3) comma True
    have ns1: "\<not> isspace (s ! 1)" and nb: "s ! 1 \<noteq> CHR ''[''"
      and ns2: "\<not> isspace (s ! (length s - 2))"
      by auto
    have ew: "endswith s '']''"
      using vcf_format_multi [OF assms(1) comma] True assms(2) by (auto split: if_splits)
    have bl: "bracketed_list s"
      using assms(1) pieces True ew by (simp add: bracketed_list_def)
    obtain m q0 mid qn where
      s: "s = CHR ''['' # m @ '']''" and sp: "split CHR '','' m = q0 # mid @ [qn]"
      using bracketed_shape [OF True ew comma] by blast
    note tr = bracketed_trimmed_pieces [OF s sp ns1 ns2]
    have "vcf_format (Some s) = Inr (VStr (join '','' (rstrip q0 # map strip mid @ [lstrip qn])))"
      by (rule vcf_format_bracketed_pieces [OF bl s sp])
    then have y: "y = join '','' (map strip (q0 # mid @ [qn]))"
      using assms(2) tr(1,2) by simp
    have "\<not> startswith q0 ''[''"
      using tr(3) nb by (auto simp: startswith_bracket)
    then have "\<not> startswith (strip q0) ''[''"
      using tr(1) startswith_rstrip [of q0] by simp
    then have "\<not> startswith (join '','' (map strip (q0 # mid @ [qn]))) ''[''"
      by (simp add: join_Cons startswith_append_comma)
    moreover have "\<And>q. q \<in> set (q0 # mid @ [qn]) \<Longrightarrow> CHR '','' \<notin> set q"
      using split_no_sep [of _ "CHR '',''" m] sp by simp
    ultimately show ?thesis
      unfolding y by (intro vcf_format_fixpoint) auto
  qed
qed

theorem vcf_format_idempotent_witness:
  "non_numeric ''[A, B,C]''
   \<and> vcf_format (Some ''[A, B,C]'') = Inr (VStr ''A,B,C'')
   \<and> vcf_format (Some ''A,B,C'') = Inr (VStr ''A,B,C'')"
proof -
  have n: "non_numeric ''[A, B,C]''" by (simp add: fmt_eval)
  have f: "vcf_format (Some ''[A, B,C]'') = Inr (VStr ''A,B,C'')" by (simp add: fmt_eval)
  have c: "CHR '','' \<notin> set ''[A, B,C]''
         \<or> \<not> startswith (lstrip ''[A, B,C]'') ''[''
         \<or> (startswith ''[A, B,C]'' ''['' \<and> \<not> isspace (''[A, B,C]'' ! 1)
             \<and> ''[A, B,C]'' ! 1 \<noteq> CHR ''[''
             \<and> \<not> isspace (''[A, B,C]'' ! (length ''[A, B,C]'' - 2)))"
    by (simp add: startswith_def isspace_def)
  from vcf_format_idempotent [OF n f c] n f show ?thesis by simp
qed

text \<open>
  Claim C9 as stated fails on the nested list \<^verbatim>\<open>"[[a,b]]"\<close>: the formatter returns
  \<^verbatim>\<open>"[a,b]"\<close>, and formatting that text again returns \<^verbatim>\<open>"a,b"\<close>.
\<close>

theorem vcf_format_idempotent_counterexample:
  "non_numeric ''[[a,b]]''
   \<and> vcf_format (Some ''[[a,b]]'') = Inr (VStr ''[a,b]'')
   \<and> vcf_format (Some ''[a,b]'') = Inr (VStr ''a,b'')
   \<and> vcf_format (Some ''[a,b]'') \<noteq> vcf_format (Some ''[[a,b]]'')"
  by (simp add: fmt_eval)

section \<open>Comprehensions that may raise\<close>







section \<open>Dictionaries\<close>

lemma dict_of_fold: "fold (\<lambda>(k, v) d. d(k \<mapsto> v)) kvs m = m ++ map_of (rev kvs)"
  by (induction kvs arbitrary: m) (auto simp: map_add_upd)

lemma dict_of_map_of: "dict_of kvs = map_of (rev kvs)"
  by (simp add: dict_of_def dict_of_fold)

lemma dict_of_Some: "dict_of kvs k = Some v \<Longrightarrow> (k, v) \<in> set kvs"
  unfolding dict_of_map_of using map_of_SomeD [of "rev kvs" k v] by simp


lemma ordering_dict_Some:
  "ordering_dict names n = Some i \<Longrightarrow> i < length names \<and> names ! i = n"
proof -
  assume "ordering_dict names n = Some i"
  then have "(n, i) \<in> set (zip names [0 ..< length names])"
    unfolding ordering_dict_def by (rule dict_of_Some)
  then show ?thesis by (auto simp: set_zip)
qed



section \<open>The ordering utility\<close>












section \<open>Runs\<close>

lemma groupby_concat: "concat (map snd (groupby key xs)) = xs"
  by (induction key xs rule: groupby.induct) simp_all

lemma groupby_Nil_iff: "groupby key xs = [] \<longleftrightarrow> xs = []"
  by (cases xs) simp_all

lemma groupby_hd_key: "xs \<noteq> [] \<Longrightarrow> fst (hd (groupby key xs)) = key (hd xs)"
  by (cases xs) simp_all

lemma groupby_group:
  "(k, g) \<in> set (groupby key xs) \<Longrightarrow> g \<noteq> [] \<and> k = key (hd g) \<and> (\<forall>x \<in> set g. key x = k)"
proof (induction key xs rule: groupby.induct)
  case (1 key)
  then show ?case by simp
next
  case (2 key x xs)
  from "2.prems" have "(k, g) = (key x, x # takeWhile (\<lambda>y. key y = key x) xs)
      \<or> (k, g) \<in> set (groupby key (dropWhile (\<lambda>y. key y = key x) xs))"
    by simp
  then show ?case
  proof
    assume "(k, g) = (key x, x # takeWhile (\<lambda>y. key y = key x) xs)"
    then have k: "k = key x" and g: "g = x # takeWhile (\<lambda>y. key y = key x) xs"
      by simp_all
    have "key z = k" if "z \<in> set g" for z
    proof (cases "z = x")
      case True
      then show ?thesis by (simp only: k)
    next
      case False
      with that have "z \<in> set (takeWhile (\<lambda>y. key y = key x) xs)"
        unfolding g by simp
      then have "key z = key x" by (rule set_takeWhileD [THEN conjunct2])
      then show ?thesis by (simp only: k)
    qed
    moreover have "g \<noteq> []" "hd g = x" unfolding g by simp_all
    ultimately show ?thesis unfolding k by blast
  next
    assume "(k, g) \<in> set (groupby key (dropWhile (\<lambda>y. key y = key x) xs))"
    then show ?thesis by (rule "2.IH")
  qed
qed

lemma groupby_fst: "map fst (groupby key xs) = map (\<lambda>r. key (hd r)) (map snd (groupby key xs))"
  using groupby_group [of _ _ key xs] by (auto simp: comp_def)

lemma groupby_distinct_adj: "distinct_adj (map fst (groupby key xs))"
proof (induction key xs rule: groupby.induct)
  case (1 key)
  show ?case by simp
next
  case (2 key x xs)
  define rest where "rest = dropWhile (\<lambda>y. key y = key x) xs"
  have IH: "distinct_adj (map fst (groupby key rest))"
    unfolding rest_def by (rule "2.IH")
  show ?case
  proof (cases "rest = []")
    case True
    then show ?thesis by (simp add: rest_def [symmetric])
  next
    case False
    then have "key (hd rest) \<noteq> key x"
      unfolding rest_def using hd_dropWhile [of "\<lambda>y. key y = key x" xs] by simp
    moreover have "hd (map fst (groupby key rest)) = key (hd rest)"
      using False groupby_hd_key [of rest key] by (simp add: hd_map groupby_Nil_iff)
    ultimately show ?thesis
      using IH False by (simp add: rest_def [symmetric] distinct_adj_Cons groupby_Nil_iff)
  qed
qed

lemma maximal_runs_groupby: "maximal_runs key xs (map snd (groupby key xs))"
proof -
  have "r \<noteq> [] \<and> (\<exists>k. \<forall>x \<in> set r. key x = k)"
    if "r \<in> set (map snd (groupby key xs))" for r
  proof -
    from that obtain k where "(k, r) \<in> set (groupby key xs)" by auto
    from groupby_group [OF this] show ?thesis by blast
  qed
  then have runs: "\<forall>r \<in> set (map snd (groupby key xs)). r \<noteq> [] \<and> (\<exists>k. \<forall>x \<in> set r. key x = k)"
    by blast
  have adj: "distinct_adj (map (\<lambda>r. key (hd r)) (map snd (groupby key xs)))"
    using groupby_distinct_adj [of key xs] by (simp only: groupby_fst)
  have cat: "concat (map snd (groupby key xs)) = xs" by (rule groupby_concat)
  show ?thesis unfolding maximal_runs_def using cat runs adj by blast
qed






section \<open>Building one record\<close>












section \<open>Building all records\<close>




section \<open>The record of one run\<close>






section \<open>Positions in the sample ordering\<close>




section \<open>The order of the samples\<close>



section \<open>The fields of a record\<close>







section \<open>Failures\<close>












section \<open>One record for each run\<close>



section \<open>Unknown samples\<close>




section \<open>The grouping key\<close>

lemma pair_grouping:
  "length (groupby call_key [a, b]) = (if call_key a = call_key b then 1 else 2)"
  by simp


end
